theory Spec2Isabelle
  imports Main
begin

section \<open>Data model of \<open>ordered_set/__init__.py\<close>\<close>

text \<open>
  The exceptions the class raises. \<open>ValueError\<close> is what \<open>update\<close> turns the
  \<open>TypeError\<close> of a failed iteration into.
\<close>

datatype error = KeyError | IndexError | ValueError | TypeError

text \<open>
  \<open>class OrderedSet\<close> has the two slots \<open>items\<close> (a list) and \<open>map\<close> (a dict from element
  to position). Python integers are unbounded, so the positions stored in the dict are
  \<open>int\<close>. The dict is a partial function: the only loop that walks it (in \<open>discard\<close>)
  rewrites each key's own value, so the order of its keys is never observed. Elements are
  values of the type \<open>'a\<close>: hashable and comparable for equality, as a dict key must be.
\<close>

record 'a ordered_set =
  items :: "'a list"
  map_idx :: "'a \<rightharpoonup> int"

text \<open>
  An argument of \<open>update(*sequences)\<close>: either something \<open>for item in sequence\<close> can walk
  (given by the elements it yields, repetitions included) or an object that is not iterable,
  such as the \<open>3\<close> of \<open>test_update_value_error\<close>.
\<close>

datatype 'a source = Iterable "'a list" | NotIterable

text \<open>What \<open>__getstate__\<close> returns: the tuple \<open>(None,)\<close> or a list of the elements.\<close>

datatype 'a pickle_state = NoneTuple | ItemList "'a list"

subsection \<open>Python list primitives\<close>

text \<open>
  \<open>xs[i]\<close>, \<open>del xs[i]\<close> and \<open>xs[i] = v\<close> accept \<open>-len(xs) <= i < len(xs)\<close>, count a negative
  index from the end, and raise \<open>IndexError\<close> for any other index.
\<close>

definition index_ok :: "int \<Rightarrow> 'a list \<Rightarrow> bool" where
  "index_ok i xs \<longleftrightarrow> - int (length xs) \<le> i \<and> i < int (length xs)"

definition norm_index :: "int \<Rightarrow> 'a list \<Rightarrow> nat" where
  "norm_index i xs = nat (if i < 0 then i + int (length xs) else i)"

definition del_nth :: "nat \<Rightarrow> 'a list \<Rightarrow> 'a list" where
  "del_nth j xs = take j xs @ drop (Suc j) xs"

definition list_getitem :: "'a list \<Rightarrow> int \<Rightarrow> error + 'a" where
  "list_getitem xs i =
     (if index_ok i xs then Inr (xs ! norm_index i xs) else Inl IndexError)"

definition list_delitem :: "'a list \<Rightarrow> int \<Rightarrow> error + 'a list" where
  "list_delitem xs i =
     (if index_ok i xs then Inr (del_nth (norm_index i xs) xs) else Inl IndexError)"

definition list_setitem :: "'a list \<Rightarrow> int \<Rightarrow> 'a \<Rightarrow> error + 'a list" where
  "list_setitem xs i v =
     (if index_ok i xs then Inr (xs[norm_index i xs := v]) else Inl IndexError)"

text \<open>
  The dict comprehension \<open>{item: i for i, item in enumerate(items)}\<close>: the entries are
  stored from left to right, so a repeated item keeps its last position.
\<close>

definition store :: "nat \<times> 'a \<Rightarrow> ('a \<rightharpoonup> int) \<Rightarrow> ('a \<rightharpoonup> int)" where
  "store p m = (case p of (i, item) \<Rightarrow> m(item \<mapsto> int i))"

definition rebuild_map :: "'a list \<Rightarrow> ('a \<rightharpoonup> int)" where
  "rebuild_map xs = fold store (enumerate 0 xs) Map.empty"

subsection \<open>Construction, membership, insertion\<close>

definition empty_os :: "'a ordered_set" where
  "empty_os = \<lparr>items = [], map_idx = Map.empty\<rparr>"

definition len :: "'a ordered_set \<Rightarrow> nat" where
  "len s = length (items s)"

definition contains :: "'a ordered_set \<Rightarrow> 'a \<Rightarrow> bool" where
  "contains s key \<longleftrightarrow> map_idx s key \<noteq> None"

text \<open>
  \<open>add\<close>: when the value is not a key of the dict, it is stored with the current length and
  appended; the value returned is \<open>self.map[value]\<close> of the resulting dict.
\<close>

definition add :: "'a ordered_set \<Rightarrow> 'a \<Rightarrow> int \<times> 'a ordered_set" where
  "add s v =
     (case map_idx s v of
        None \<Rightarrow>
          (int (length (items s)),
           \<lparr>items = items s @ [v], map_idx = (map_idx s)(v \<mapsto> int (length (items s)))\<rparr>)
      | Some i \<Rightarrow> (i, s))"

definition append :: "'a ordered_set \<Rightarrow> 'a \<Rightarrow> int \<times> 'a ordered_set" where
  "append s key = add s key"

text \<open>
  \<open>update\<close>: the inner loop \<open>for item in sequence: item_index = self.add(item)\<close> and the
  outer loop over the sources. Walking a source that is not iterable raises \<open>TypeError\<close>,
  which the \<open>except\<close> clause turns into \<open>ValueError\<close>; nothing is undone. The result is
  the raised error or the returned index, with the state the object is left in.
\<close>

fun add_each :: "'a ordered_set \<Rightarrow> int \<Rightarrow> 'a list \<Rightarrow> int \<times> 'a ordered_set" where
  "add_each s item_index [] = (item_index, s)"
| "add_each s item_index (item # rest) =
     (case add s item of (i, s') \<Rightarrow> add_each s' i rest)"

fun update_from ::
  "'a ordered_set \<Rightarrow> int \<Rightarrow> 'a source list \<Rightarrow> (error + int) \<times> 'a ordered_set" where
  "update_from s item_index [] = (Inr item_index, s)"
| "update_from s item_index (NotIterable # rest) = (Inl ValueError, s)"
| "update_from s item_index (Iterable xs # rest) =
     (case add_each s item_index xs of (i, s') \<Rightarrow> update_from s' i rest)"

definition update :: "'a ordered_set \<Rightarrow> 'a source list \<Rightarrow> (error + int) \<times> 'a ordered_set" where
  "update s sequences = update_from s 0 sequences"

text \<open>
  The constructor applied to an iterable that yields \<open>initial\<close>: \<open>__init__\<close> starts from the
  empty list and dict and calls \<open>self.update(initial)\<close>. \<open>OrderedSet []\<close> is also what
  \<open>OrderedSet()\<close> builds.
\<close>

definition OrderedSet :: "'a list \<Rightarrow> 'a ordered_set" where
  "OrderedSet initial = snd (update empty_os [Iterable initial])"

definition copy :: "'a ordered_set \<Rightarrow> 'a ordered_set" where
  "copy s = OrderedSet (items s)"

subsection \<open>Pickling\<close>

definition getstate :: "'a ordered_set \<Rightarrow> 'a pickle_state" where
  "getstate s = (if len s = 0 then NoneTuple else ItemList (items s))"

definition setstate :: "'a pickle_state \<Rightarrow> 'a ordered_set" where
  "setstate state = (case state of NoneTuple \<Rightarrow> OrderedSet [] | ItemList xs \<Rightarrow> OrderedSet xs)"

text \<open>Python's truth value of a state: a tuple of one element is true, a list when not empty.\<close>

definition truthy :: "'a pickle_state \<Rightarrow> bool" where
  "truthy state = (case state of NoneTuple \<Rightarrow> True | ItemList xs \<Rightarrow> xs \<noteq> [])"

subsection \<open>Positional mutation and removal\<close>

definition update_items :: "'a ordered_set \<Rightarrow> 'a list \<Rightarrow> 'a ordered_set" where
  "update_items s new_items = s\<lparr>items := new_items, map_idx := rebuild_map new_items\<rparr>"

definition pop :: "'a ordered_set \<Rightarrow> int \<Rightarrow> (error + 'a) \<times> 'a ordered_set" where
  "pop s index =
     (if items s = [] then (Inl KeyError, s)
      else case list_getitem (items s) index of
        Inl e \<Rightarrow> (Inl e, s)
      | Inr elem \<Rightarrow>
          (case list_delitem (items s) index of
             Inl e \<Rightarrow> (Inl e, s)
           | Inr items' \<Rightarrow> (Inr elem, \<lparr>items = items', map_idx = rebuild_map items'\<rparr>)))"

text \<open>
  \<open>__setitem__\<close>. The read \<open>old_value = self.items[index]\<close> cannot fail after the range
  check and its value is not used. When the assignment \<open>self.items[index] = value\<close> fails
  after \<open>del self.items[old_index]\<close>, the list has lost an element and the dict is as it was.
\<close>

definition setitem :: "'a ordered_set \<Rightarrow> int \<Rightarrow> 'a \<Rightarrow> (error + unit) \<times> 'a ordered_set" where
  "setitem s index v =
     (if \<not> index_ok index (items s) then (Inl IndexError, s)
      else
        let index = (if index < 0 then index + int (length (items s)) else index) in
        case map_idx s v of
          Some old_index \<Rightarrow>
            if old_index = index then (Inr (), s)
            else
              (case list_delitem (items s) old_index of
                 Inl e \<Rightarrow> (Inl e, s)
               | Inr items1 \<Rightarrow>
                   let index = (if old_index < index then index - 1 else index) in
                   (case list_setitem items1 index v of
                      Inl e \<Rightarrow> (Inl e, s\<lparr>items := items1\<rparr>)
                    | Inr items2 \<Rightarrow>
                        (Inr (), \<lparr>items = items2, map_idx = rebuild_map items2\<rparr>)))
        | None \<Rightarrow>
            (case list_setitem (items s) index v of
               Inl e \<Rightarrow> (Inl e, s)
             | Inr items2 \<Rightarrow> (Inr (), \<lparr>items = items2, map_idx = rebuild_map items2\<rparr>)))"

definition delitem :: "'a ordered_set \<Rightarrow> int \<Rightarrow> (error + unit) \<times> 'a ordered_set" where
  "delitem s index =
     (if \<not> index_ok index (items s) then (Inl IndexError, s)
      else
        let index = (if index < 0 then index + int (length (items s)) else index) in
        case list_delitem (items s) index of
          Inl e \<Rightarrow> (Inl e, s)
        | Inr items' \<Rightarrow> (Inr (), \<lparr>items = items', map_idx = rebuild_map items'\<rparr>))"

text \<open>
  The loop of \<open>discard\<close> visits every remaining key once and lowers its own value by one
  when that value is at least \<open>i\<close>.
\<close>

definition shift_down :: "int \<Rightarrow> ('a \<rightharpoonup> int) \<Rightarrow> ('a \<rightharpoonup> int)" where
  "shift_down i m =
     (\<lambda>k. case m k of None \<Rightarrow> None | Some v \<Rightarrow> if v \<ge> i then Some (v - 1) else Some v)"

definition discard :: "'a ordered_set \<Rightarrow> 'a \<Rightarrow> (error + unit) \<times> 'a ordered_set" where
  "discard s v =
     (if contains s v then
        (case map_idx s v of
           None \<Rightarrow> (Inl KeyError, s)
         | Some i \<Rightarrow>
             (case list_delitem (items s) i of
                Inl e \<Rightarrow> (Inl e, s)
              | Inr items' \<Rightarrow>
                  (Inr (), \<lparr>items = items', map_idx = shift_down i ((map_idx s)(v := None))\<rparr>)))
      else (Inr (), s))"

text \<open>
  Modelled from the spec: \<open>remove\<close> is not defined in the class. It is the mixin method of
  \<open>collections.abc.MutableSet\<close>, which the docstring of \<open>discard\<close> refers to: it raises
  \<open>KeyError\<close> for a value that is not contained (the spec's not-found error, checked by
  \<open>test_remove_error\<close>) and calls \<open>discard\<close> otherwise.
\<close>

definition remove :: "'a ordered_set \<Rightarrow> 'a \<Rightarrow> (error + unit) \<times> 'a ordered_set" where
  "remove s v = (if \<not> contains s v then (Inl KeyError, s) else discard s v)"

definition clear :: "'a ordered_set \<Rightarrow> 'a ordered_set" where
  "clear s = \<lparr>items = [], map_idx = Map.empty\<rparr>"

subsection \<open>Equality and set algebra\<close>

text \<open>\<open>__eq__\<close> against another OrderedSet (a Sequence): \<open>list(self) == list(other)\<close>.\<close>

definition eq_os :: "'a ordered_set \<Rightarrow> 'a ordered_set \<Rightarrow> bool" where
  "eq_os s other \<longleftrightarrow> items s = items other"

text \<open>
  The other operands of the set algebra are iterables; each is given by the list of the
  elements it yields (for an OrderedSet \<open>t\<close>, that is \<open>items t\<close>). \<open>in_all\<close> is membership in
  \<open>set.intersection(*map(set, sets))\<close>, \<open>in_any\<close> membership in \<open>set.union(*map(set, sets))\<close>.
\<close>

definition in_all :: "'a list list \<Rightarrow> 'a \<Rightarrow> bool" where
  "in_all sets item = list_all (\<lambda>t. item \<in> set t) sets"

definition in_any :: "'a list list \<Rightarrow> 'a \<Rightarrow> bool" where
  "in_any sets item = list_ex (\<lambda>t. item \<in> set t) sets"

definition union_os :: "'a ordered_set \<Rightarrow> 'a list list \<Rightarrow> 'a ordered_set" where
  "union_os s sets = OrderedSet (items s @ concat sets)"

definition intersection :: "'a ordered_set \<Rightarrow> 'a list list \<Rightarrow> 'a ordered_set" where
  "intersection s sets =
     (if sets \<noteq> [] then OrderedSet (filter (\<lambda>item. in_all sets item) (items s))
      else OrderedSet (items s))"

definition and_op :: "'a ordered_set \<Rightarrow> 'a list \<Rightarrow> 'a ordered_set" where
  "and_op s other = intersection s [other]"

definition difference :: "'a ordered_set \<Rightarrow> 'a list list \<Rightarrow> 'a ordered_set" where
  "difference s sets =
     (if sets \<noteq> [] then OrderedSet (filter (\<lambda>item. \<not> in_any sets item) (items s))
      else OrderedSet (items s))"

definition symmetric_difference :: "'a ordered_set \<Rightarrow> 'a list \<Rightarrow> 'a ordered_set" where
  "symmetric_difference s other =
     (let diff1 = difference (OrderedSet (items s)) [other];
          diff2 = difference (OrderedSet other) [items s]
      in union_os diff1 [items diff2])"

definition difference_update :: "'a ordered_set \<Rightarrow> 'a list list \<Rightarrow> 'a ordered_set" where
  "difference_update s sets =
     update_items s (filter (\<lambda>item. \<not> in_any sets item) (items s))"

definition intersection_update :: "'a ordered_set \<Rightarrow> 'a list \<Rightarrow> 'a ordered_set" where
  "intersection_update s other =
     update_items s (filter (\<lambda>item. item \<in> set other) (items s))"

definition symmetric_difference_update :: "'a ordered_set \<Rightarrow> 'a list \<Rightarrow> 'a ordered_set" where
  "symmetric_difference_update s other =
     (let items_to_add = filter (\<lambda>item. \<not> contains s item) other
      in update_items s (filter (\<lambda>item. item \<notin> set other) (items s) @ items_to_add))"

subsection \<open>Functions used to state the properties\<close>

text \<open>
  \<open>unseen seen xs\<close>: the elements of \<open>xs\<close> that are not in \<open>seen\<close>, each at its first
  occurrence only, in the order of \<open>xs\<close>. \<open>unseen [] xs\<close> collapses repetitions to the first
  occurrence.
\<close>

primrec unseen :: "'a list \<Rightarrow> 'a list \<Rightarrow> 'a list" where
  "unseen seen [] = []"
| "unseen seen (x # xs) =
     (if x \<in> set seen then unseen seen xs else x # unseen (x # seen) xs)"

text \<open>The elements a source yields, and \<open>add\<close> applied to each element of a list in turn.\<close>

fun yields :: "'a source \<Rightarrow> 'a list" where
  "yields (Iterable xs) = xs"
| "yields NotIterable = []"

definition add_all :: "'a ordered_set \<Rightarrow> 'a list \<Rightarrow> 'a ordered_set" where
  "add_all s xs = fold (\<lambda>x s'. snd (add s' x)) xs s"

subsection \<open>The core invariant\<close>

text \<open>
  Every element at position \<open>i\<close> of the sequence has \<open>i\<close> as its recorded index, the sequence
  has no repeated element, and the dict (finite, as every dict is) has as many keys as the
  sequence has elements.
\<close>

definition invariant :: "'a ordered_set \<Rightarrow> bool" where
  "invariant s \<longleftrightarrow>
     (\<forall>i < length (items s). map_idx s (items s ! i) = Some (int i)) \<and>
     distinct (items s) \<and>
     finite (dom (map_idx s)) \<and>
     card (dom (map_idx s)) = length (items s)"

text \<open>
  The states built by the constructor and the public mutating operations, where
  \<open>symmetric_difference_update\<close> is only given a source without repeated elements.
\<close>

inductive reachable :: "'a ordered_set \<Rightarrow> bool" where
  init: "reachable (OrderedSet xs)"
| add: "reachable s \<Longrightarrow> reachable (snd (add s v))"
| append: "reachable s \<Longrightarrow> reachable (snd (append s v))"
| update: "reachable s \<Longrightarrow> reachable (snd (update s sequences))"
| setitem: "reachable s \<Longrightarrow> reachable (snd (setitem s index v))"
| delitem: "reachable s \<Longrightarrow> reachable (snd (delitem s index))"
| pop: "reachable s \<Longrightarrow> reachable (snd (pop s index))"
| remove: "reachable s \<Longrightarrow> reachable (snd (remove s v))"
| discard: "reachable s \<Longrightarrow> reachable (snd (discard s v))"
| clear: "reachable s \<Longrightarrow> reachable (clear s)"
| intersection_update: "reachable s \<Longrightarrow> reachable (intersection_update s other)"
| difference_update: "reachable s \<Longrightarrow> reachable (difference_update s sets)"
| symmetric_difference_update:
    "reachable s \<Longrightarrow> distinct other \<Longrightarrow> reachable (symmetric_difference_update s other)"

section \<open>The position index rebuilt from a sequence\<close>

lemma store_apply: "store (i, item) m x = (if x = item then Some (int i) else m x)"
  by (simp add: store_def)

lemma dom_store: "dom (store (i, item) m) = insert item (dom m)"
  by (simp add: store_def)

lemma fold_enum_notin:
  "x \<notin> set xs \<Longrightarrow> fold store (enumerate n xs) m x = m x"
  by (induction xs arbitrary: n m) (auto simp: store_apply)

lemma fold_enum_dom:
  "dom (fold store (enumerate n xs) m) = dom m \<union> set xs"
  by (induction xs arbitrary: n m) (auto simp: dom_store)

lemma fold_enum_nth:
  "distinct xs \<Longrightarrow> i < length xs \<Longrightarrow>
   fold store (enumerate n xs) m (xs ! i) = Some (int (n + i))"
proof (induction xs arbitrary: n m i)
  case Nil
  then show ?case by simp
next
  case (Cons x xs)
  show ?case
  proof (cases i)
    case 0
    with Cons.prems show ?thesis by (simp add: fold_enum_notin store_apply)
  next
    case (Suc j)
    with Cons.prems Cons.IH [of j "Suc n"] show ?thesis by simp
  qed
qed

lemma dom_rebuild_map: "dom (rebuild_map xs) = set xs"
  by (simp add: rebuild_map_def fold_enum_dom)

lemma rebuild_map_nth:
  "distinct xs \<Longrightarrow> i < length xs \<Longrightarrow> rebuild_map xs (xs ! i) = Some (int i)"
  using fold_enum_nth [of xs i 0 Map.empty] by (simp add: rebuild_map_def)

lemma rebuild_map_notin: "x \<notin> set xs \<Longrightarrow> rebuild_map xs x = None"
  by (simp add: rebuild_map_def fold_enum_notin)

text \<open>
  A state satisfies the core invariant exactly when its sequence has no repetition and its
  dict is the one a full rebuild computes from the sequence.
\<close>

lemma invariant_iff:
  "invariant s \<longleftrightarrow> distinct (items s) \<and> map_idx s = rebuild_map (items s)"
proof
  assume inv: "invariant s"
  then have nth: "\<And>i. i < length (items s) \<Longrightarrow> map_idx s (items s ! i) = Some (int i)"
    and d: "distinct (items s)" and fin: "finite (dom (map_idx s))"
    and c: "card (dom (map_idx s)) = length (items s)"
    by (auto simp: invariant_def)
  have sub: "set (items s) \<subseteq> dom (map_idx s)"
    using nth by (auto simp: in_set_conv_nth)
  have "card (set (items s)) = card (dom (map_idx s))"
    using d c by (simp add: distinct_card)
  with sub fin have domeq: "dom (map_idx s) = set (items s)"
    using card_subset_eq [of "dom (map_idx s)" "set (items s)"] by simp
  have "map_idx s x = rebuild_map (items s) x" for x
  proof (cases "x \<in> set (items s)")
    case True
    then obtain i where "i < length (items s)" "items s ! i = x"
      by (auto simp: in_set_conv_nth)
    then show ?thesis using nth [of i] rebuild_map_nth [OF d, of i] by simp
  next
    case False
    then have "map_idx s x = None" using domeq by auto
    then show ?thesis using False by (simp add: rebuild_map_notin)
  qed
  then show "distinct (items s) \<and> map_idx s = rebuild_map (items s)"
    using d by auto
next
  assume h: "distinct (items s) \<and> map_idx s = rebuild_map (items s)"
  then show "invariant s"
    by (simp add: invariant_def rebuild_map_nth dom_rebuild_map distinct_card)
qed

lemma contains_iff: "invariant s \<Longrightarrow> contains s v \<longleftrightarrow> v \<in> set (items s)"
  using dom_rebuild_map [of "items s"] by (auto simp: invariant_iff contains_def domIff)

section \<open>Insertion\<close>

lemma invariant_add: "invariant s \<Longrightarrow> invariant (snd (add s v))"
proof -
  assume inv: "invariant s"
  then have d: "distinct (items s)" and m: "map_idx s = rebuild_map (items s)"
    by (simp_all add: invariant_iff)
  show ?thesis
  proof (cases "map_idx s v")
    case (Some i)
    then show ?thesis using inv by (simp add: add_def)
  next
    case None
    then have nin: "v \<notin> set (items s)"
      using dom_rebuild_map [of "items s"] m by (metis domIff)
    have "(\<forall>i < length (items s @ [v]).
             ((map_idx s)(v \<mapsto> int (length (items s)))) ((items s @ [v]) ! i) = Some (int i))"
      using inv nin by (auto simp: invariant_def nth_append less_Suc_eq)
    moreover have "dom ((map_idx s)(v \<mapsto> int (length (items s)))) = insert v (dom (map_idx s))"
      by simp
    moreover have "v \<notin> dom (map_idx s)" using None by (simp add: domIff)
    ultimately show ?thesis
      using inv nin None by (simp add: add_def invariant_def)
  qed
qed

text \<open>
  Claim C6. \<open>add(value)\<close>: a value that is already contained keeps its index and the set is
  left as it was; a new value is appended at the index equal to the old size and recorded in
  the position index. Adding the same value a second time returns the same index and
  changes nothing more, so the size grows by at most one. In a state that satisfies the core
  invariant, being contained means being an element of the sequence, the returned index is
  the position of the value in the resulting sequence, and the invariant is kept.
\<close>

theorem add_correct:
  "(contains s v \<longrightarrow> add s v = (the (map_idx s v), s)) \<and>
   (\<not> contains s v \<longrightarrow>
      fst (add s v) = int (len s) \<and>
      items (snd (add s v)) = items s @ [v] \<and>
      map_idx (snd (add s v)) = (map_idx s)(v \<mapsto> int (len s))) \<and>
   fst (add (snd (add s v)) v) = fst (add s v) \<and>
   snd (add (snd (add s v)) v) = snd (add s v) \<and>
   len (snd (add s v)) \<le> len s + 1 \<and>
   (invariant s \<longrightarrow>
      invariant (snd (add s v)) \<and>
      contains s v = (v \<in> set (items s)) \<and>
      0 \<le> fst (add s v) \<and>
      nat (fst (add s v)) < len (snd (add s v)) \<and>
      items (snd (add s v)) ! nat (fst (add s v)) = v)"
proof -
  have a: "contains s v \<longrightarrow> add s v = (the (map_idx s v), s)"
    by (auto simp: contains_def add_def)
  have b: "\<not> contains s v \<longrightarrow>
      fst (add s v) = int (len s) \<and>
      items (snd (add s v)) = items s @ [v] \<and>
      map_idx (snd (add s v)) = (map_idx s)(v \<mapsto> int (len s))"
    by (auto simp: contains_def add_def len_def)
  have c: "fst (add (snd (add s v)) v) = fst (add s v)"
    by (cases "map_idx s v") (simp_all add: add_def)
  have d: "snd (add (snd (add s v)) v) = snd (add s v)"
    by (cases "map_idx s v") (simp_all add: add_def)
  have e: "len (snd (add s v)) \<le> len s + 1"
    by (cases "map_idx s v") (simp_all add: add_def len_def)
  have f: "invariant (snd (add s v)) \<and>
      contains s v = (v \<in> set (items s)) \<and>
      0 \<le> fst (add s v) \<and>
      nat (fst (add s v)) < len (snd (add s v)) \<and>
      items (snd (add s v)) ! nat (fst (add s v)) = v" if inv: "invariant s"
  proof (cases "map_idx s v")
    case None
    then show ?thesis
      using inv invariant_add [OF inv, of v] contains_iff [OF inv, of v]
      by (simp add: add_def len_def)
  next
    case (Some i)
    then have "v \<in> set (items s)" using contains_iff [OF inv, of v] by (simp add: contains_def)
    then obtain j where j: "j < length (items s)" "items s ! j = v"
      by (auto simp: in_set_conv_nth)
    then have "map_idx s v = Some (int j)" using inv by (auto simp: invariant_def)
    with Some have i: "i = int j" by simp
    show ?thesis
      using Some j inv contains_iff [OF inv, of v] unfolding i by (simp add: add_def len_def)
  qed
  from a b c d e f show ?thesis by blast
qed

theorem add_correct_witness:
  "add (OrderedSet [''a'', ''b'']) ''b'' = (1, OrderedSet [''a'', ''b'']) \<and>
   fst (add (OrderedSet [''a'', ''b'']) ''c'') = 2 \<and>
   items (snd (add (OrderedSet [''a'', ''b'']) ''c'')) = [''a'', ''b'', ''c''] \<and>
   invariant (snd (add (OrderedSet [''a'', ''b'']) ''c''))"
proof -
  have ev: "OrderedSet [''a'', ''b''] =
      \<lparr>items = [''a'', ''b''], map_idx = [''a'' \<mapsto> 0, ''b'' \<mapsto> 1]\<rparr>"
    by (simp add: OrderedSet_def update_def add_def empty_os_def)
  have inv: "invariant (OrderedSet [''a'', ''b''])"
    unfolding ev by (simp add: invariant_def less_Suc_eq)
  have c1: "contains (OrderedSet [''a'', ''b'']) ''b''" unfolding ev by (simp add: contains_def)
  have c2: "\<not> contains (OrderedSet [''a'', ''b'']) ''c''" unfolding ev by (simp add: contains_def)
  have l: "len (OrderedSet [''a'', ''b'']) = 2" "map_idx (OrderedSet [''a'', ''b'']) ''b'' = Some 1"
    "items (OrderedSet [''a'', ''b'']) = [''a'', ''b'']"
    unfolding ev by (simp_all add: len_def)
  show ?thesis
    using add_correct [of "OrderedSet [''a'', ''b'']" "''b''"]
      add_correct [of "OrderedSet [''a'', ''b'']" "''c''"] inv c1 c2 l
    by simp
qed

section \<open>Bulk update\<close>

lemma update_from_no_elements:
  "list_all (\<lambda>src. src = Iterable []) sequences \<Longrightarrow>
   update_from s item_index sequences = (Inr item_index, s)"
  by (induction sequences) auto

text \<open>
  Claim C10. \<open>update\<close> called with no source, or with sources that all yield nothing, returns
  0 and leaves the set as it is, whatever the set holds: \<open>item_index\<close> starts at 0 and only
  a call of \<open>add\<close> overwrites it.
\<close>

theorem update_without_elements_returns_zero:
  assumes "\<forall>src \<in> set sequences. src = Iterable []"
  shows "update s sequences = (Inr 0, s)"
  using assms by (simp add: update_def update_from_no_elements list_all_iff)

theorem update_without_elements_witness:
  "update (OrderedSet [''a'', ''b'', ''c'']) [] = (Inr 0, OrderedSet [''a'', ''b'', ''c'']) \<and>
   update (OrderedSet [''a'', ''b'', ''c'']) [Iterable [], Iterable []] =
     (Inr 0, OrderedSet [''a'', ''b'', ''c'']) \<and>
   len (OrderedSet [''a'', ''b'', ''c'']) = 3"
proof -
  have h1: "\<forall>src \<in> set ([] :: string source list). src = Iterable []" by simp
  have h2: "\<forall>src \<in> set [Iterable [], Iterable ([] :: string list)]. src = Iterable []" by simp
  have l: "items (OrderedSet [''a'', ''b'', ''c'']) = [''a'', ''b'', ''c'']"
    by (simp add: OrderedSet_def update_def add_def empty_os_def)
  show ?thesis
    using update_without_elements_returns_zero [OF h1]
      update_without_elements_returns_zero [OF h2]
    by (simp add: len_def l)
qed

section \<open>Construction from an iterable\<close>

lemma set_unseen: "set (unseen seen xs) = set xs - set seen"
  by (induction xs arbitrary: seen) auto

lemma distinct_unseen: "distinct (unseen seen xs)"
  by (induction xs arbitrary: seen) (auto simp: set_unseen)

lemma unseen_cong: "set a = set b \<Longrightarrow> unseen a xs = unseen b xs"
proof (induction xs arbitrary: a b)
  case Nil
  show ?case by simp
next
  case (Cons x xs)
  have "set (x # a) = set (x # b)" using Cons.prems by simp
  then have "unseen (x # a) xs = unseen (x # b) xs" by (rule Cons.IH)
  moreover have "unseen a xs = unseen b xs" using Cons.prems by (rule Cons.IH)
  ultimately show ?case using Cons.prems by simp
qed

lemma unseen_distinct:
  "distinct xs \<Longrightarrow> set xs \<inter> set seen = {} \<Longrightarrow> unseen seen xs = xs"
  by (induction xs arbitrary: seen) auto

lemma unseen_filter:
  "(\<And>y. P y \<Longrightarrow> y \<in> set seen \<longleftrightarrow> y \<in> set seen') \<Longrightarrow>
   unseen seen (filter P xs) = filter P (unseen seen' xs)"
proof (induction xs arbitrary: seen seen')
  case Nil
  then show ?case by simp
next
  case (Cons x xs)
  show ?case
  proof (cases "P x")
    case True
    then have "x \<in> set seen \<longleftrightarrow> x \<in> set seen'" using Cons.prems by blast
    moreover have "unseen seen (filter P xs) = filter P (unseen seen' xs)"
      using Cons.IH [of seen seen'] Cons.prems by blast
    moreover have "unseen (x # seen) (filter P xs) = filter P (unseen (x # seen') xs)"
      using Cons.IH [of "x # seen" "x # seen'"] Cons.prems by auto
    ultimately show ?thesis using True by simp
  next
    case False
    have a: "unseen seen (filter P xs) = filter P (unseen seen' xs)"
      using Cons.IH [of seen seen'] Cons.prems by blast
    have b: "unseen seen (filter P xs) = filter P (unseen (x # seen') xs)"
      using Cons.IH [of seen "x # seen'"] Cons.prems False by auto
    show ?thesis using False a b by simp
  qed
qed

lemma add_each_append:
  "add_each s i (xs @ ys) = (case add_each s i xs of (j, s') \<Rightarrow> add_each s' j ys)"
  by (induction xs arbitrary: s i) (auto split: prod.splits)

lemma snd_add_each: "snd (add_each s i xs) = add_all s xs"
  by (induction xs arbitrary: s i) (auto simp: add_all_def split: prod.splits)

lemma fst_add_each:
  "fst (add_each s i xs) =
     (if xs = [] then i else fst (add (add_all s (butlast xs)) (last xs)))"
  by (induction xs arbitrary: s i) (auto simp: add_all_def split: prod.splits)

lemma add_all_append: "add_all s (xs @ ys) = add_all (add_all s xs) ys"
  by (simp add: add_all_def)

lemma add_all_invariant:
  "invariant s \<Longrightarrow>
   invariant (add_all s xs) \<and> items (add_all s xs) = items s @ unseen (items s) xs"
proof (induction xs arbitrary: s)
  case Nil
  then show ?case by (simp add: add_all_def)
next
  case (Cons x xs)
  let ?s' = "snd (add s x)"
  have inv': "invariant ?s'" using Cons.prems by (rule invariant_add)
  have step: "add_all s (x # xs) = add_all ?s' xs" by (simp add: add_all_def)
  show ?case
  proof (cases "x \<in> set (items s)")
    case True
    then have "contains s x" using contains_iff [OF Cons.prems] by simp
    then have "?s' = s" by (auto simp: add_def contains_def)
    then show ?thesis using Cons.IH [OF Cons.prems] True step by simp
  next
    case False
    then have "\<not> contains s x" using contains_iff [OF Cons.prems] by simp
    then have it: "items ?s' = items s @ [x]" by (auto simp: add_def contains_def)
    have "unseen (items s @ [x]) xs = unseen (x # items s) xs"
      by (rule unseen_cong) auto
    then show ?thesis using Cons.IH [OF inv'] False step it by simp
  qed
qed

lemma invariant_empty_os: "invariant empty_os"
  by (simp add: invariant_def empty_os_def)

lemma OrderedSet_add_all: "OrderedSet xs = add_all empty_os xs"
  by (simp add: OrderedSet_def update_def split_beta snd_add_each)

lemma invariant_OrderedSet: "invariant (OrderedSet xs)"
  using add_all_invariant [OF invariant_empty_os, of xs] by (simp add: OrderedSet_add_all)

lemma items_OrderedSet: "items (OrderedSet xs) = unseen [] xs"
  using add_all_invariant [OF invariant_empty_os, of xs]
  by (simp add: OrderedSet_add_all empty_os_def)

lemma ordered_set_eqI:
  "items s = items t \<Longrightarrow> map_idx s = map_idx t \<Longrightarrow> (s :: 'a ordered_set) = t"
  by simp

lemma invariant_eqI:
  "invariant s \<Longrightarrow> invariant t \<Longrightarrow> items s = items t \<Longrightarrow> (s :: 'a ordered_set) = t"
  by (simp add: invariant_iff)

lemma OrderedSet_eq: "OrderedSet xs = \<lparr>items = unseen [] xs, map_idx = rebuild_map (unseen [] xs)\<rparr>"
  using invariant_OrderedSet [of xs] items_OrderedSet [of xs]
  by (simp add: invariant_iff)

lemma OrderedSet_distinct:
  "distinct xs \<Longrightarrow> OrderedSet xs = \<lparr>items = xs, map_idx = rebuild_map xs\<rparr>"
  by (simp add: OrderedSet_eq unseen_distinct)

section \<open>What \<open>update\<close> raises, returns and inserts\<close>

lemma update_from_raises:
  "NotIterable \<in> set sequences \<Longrightarrow> fst (update_from s i sequences) = Inl ValueError"
proof (induction sequences arbitrary: s i)
  case Nil
  then show ?case by simp
next
  case (Cons src rest)
  then show ?case by (cases src) (auto split: prod.splits)
qed

lemma update_from_returns:
  "NotIterable \<notin> set sequences \<Longrightarrow>
   update_from s i sequences = 
     (Inr (fst (add_each s i (concat (map yields sequences)))),
      add_all s (concat (map yields sequences)))"
proof (induction sequences arbitrary: s i)
  case Nil
  then show ?case by (simp add: add_all_def)
next
  case (Cons src rest)
  then show ?case
    by (cases src) (simp_all add: split_beta add_each_append add_all_append snd_add_each)
qed

lemma update_from_state:
  "snd (update_from s i sequences) =
     add_all s (concat (map yields (takeWhile (\<lambda>src. src \<noteq> NotIterable) sequences)))"
proof (induction sequences arbitrary: s i)
  case Nil
  then show ?case by (simp add: add_all_def)
next
  case (Cons src rest)
  then show ?case
    by (cases src) (simp_all add: split_beta add_all_append snd_add_each, simp add: add_all_def)
qed

text \<open>
  Claim C4. \<open>update(*sources)\<close> raises the input-shape error (\<open>ValueError\<close>) when some source
  is not iterable. When every source is an iterable of elements it raises nothing: it
  returns the index of the last call of \<open>add\<close> (0 when there was none), and the set is the
  one obtained by calling \<open>add\<close> on every element of every source, left to right. From a
  state that satisfies the invariant, the sequence gains the elements it did not hold, each
  at its first occurrence, and the invariant is kept.
\<close>

theorem update_correct:
  "(NotIterable \<in> set sequences \<longrightarrow> fst (update s sequences) = Inl ValueError) \<and>
   (NotIterable \<notin> set sequences \<longrightarrow>
      fst (update s sequences) =
        Inr (if concat (map yields sequences) = [] then 0
             else fst (add (add_all s (butlast (concat (map yields sequences))))
                           (last (concat (map yields sequences))))) \<and>
      snd (update s sequences) = add_all s (concat (map yields sequences)) \<and>
      (invariant s \<longrightarrow>
         invariant (snd (update s sequences)) \<and>
         items (snd (update s sequences)) =
           items s @ unseen (items s) (concat (map yields sequences))))"
proof -
  have a: "fst (update s sequences) = Inl ValueError" if "NotIterable \<in> set sequences"
    using that by (simp add: update_def update_from_raises)
  have b: "update s sequences =
      (Inr (if concat (map yields sequences) = [] then 0
             else fst (add (add_all s (butlast (concat (map yields sequences))))
                           (last (concat (map yields sequences))))),
       add_all s (concat (map yields sequences)))" if "NotIterable \<notin> set sequences"
    using update_from_returns [OF that, of s 0] by (simp add: update_def fst_add_each)
  have c: "invariant (add_all s (concat (map yields sequences))) \<and>
     items (add_all s (concat (map yields sequences))) =
       items s @ unseen (items s) (concat (map yields sequences))" if "invariant s"
    using that by (rule add_all_invariant)
  show ?thesis using a b c by simp
qed

theorem update_correct_witness:
  "fst (update (OrderedSet [''a'', ''b'', ''c'', ''d'']) [Iterable [''c'', ''d''], Iterable [''e'', ''f'']])
     = Inr 5 \<and>
   items (snd (update (OrderedSet [''a'', ''b'', ''c'', ''d''])
     [Iterable [''c'', ''d''], Iterable [''e'', ''f'']])) = [''a'', ''b'', ''c'', ''d'', ''e'', ''f''] \<and>
   fst (update (OrderedSet [''a'', ''b'', ''c'', ''d'']) [Iterable [''e''], NotIterable])
     = Inl ValueError"
proof -
  let ?s = "OrderedSet [''a'', ''b'', ''c'', ''d'']"
  have inv: "invariant ?s" by (rule invariant_OrderedSet)
  have it: "items ?s = [''a'', ''b'', ''c'', ''d'']" by (simp add: items_OrderedSet)
  have ev: "?s = \<lparr>items = [''a'', ''b'', ''c'', ''d''],
      map_idx = [''a'' \<mapsto> 0, ''b'' \<mapsto> 1, ''c'' \<mapsto> 2, ''d'' \<mapsto> 3]\<rparr>"
    by (simp add: OrderedSet_def update_def add_def empty_os_def)
  have n1: "NotIterable \<notin> set [Iterable [''c'', ''d''], Iterable [''e'', ''f'']]" by simp
  have n2: "NotIterable \<in> set [Iterable [''e''], NotIterable]" by simp
  note ok = update_correct [of "[Iterable [''c'', ''d''], Iterable [''e'', ''f'']]" ?s]
  note bad = update_correct [of "[Iterable [''e''], NotIterable]" ?s]
  have "fst (update ?s [Iterable [''c'', ''d''], Iterable [''e'', ''f'']]) =
      Inr (if concat (map yields [Iterable [''c'', ''d''], Iterable [''e'', ''f'']]) = [] then 0
           else fst (add (add_all ?s
                  (butlast (concat (map yields [Iterable [''c'', ''d''], Iterable [''e'', ''f'']]))))
                  (last (concat (map yields [Iterable [''c'', ''d''], Iterable [''e'', ''f'']])))))"
    using ok n1 by blast
  then have 1: "fst (update ?s [Iterable [''c'', ''d''], Iterable [''e'', ''f'']]) = Inr 5"
    unfolding ev by (simp add: add_all_def add_def)
  have "items (snd (update ?s [Iterable [''c'', ''d''], Iterable [''e'', ''f'']])) =
      items ?s @ unseen (items ?s)
        (concat (map yields [Iterable [''c'', ''d''], Iterable [''e'', ''f'']]))"
    using ok n1 inv by blast
  then have 2: "items (snd (update ?s [Iterable [''c'', ''d''], Iterable [''e'', ''f'']])) =
      [''a'', ''b'', ''c'', ''d'', ''e'', ''f'']"
    by (simp add: it)
  have 3: "fst (update ?s [Iterable [''e''], NotIterable]) = Inl ValueError"
    using bad n2 by blast
  show ?thesis using 1 2 3 by blast
qed

section \<open>Pickling round trip\<close>

text \<open>
  Claim C9. For every set that satisfies the core invariant, empty or not, \<open>__setstate__\<close>
  applied to the result of \<open>__getstate__\<close> rebuilds the same set (the same sequence and the
  same position index, hence a set equal to it by \<open>__eq__\<close>). The exported state is always
  true in Python's sense, so it is never taken for missing data: the empty set exports the
  one-element tuple \<open>(None,)\<close>, and that tuple is rebuilt into the empty set.
\<close>

theorem pickle_roundtrip:
  assumes "invariant s"
  shows "setstate (getstate s) = s \<and>
         eq_os (setstate (getstate s)) s \<and>
         truthy (getstate s) \<and>
         (getstate s = NoneTuple \<longleftrightarrow> len s = 0) \<and>
         getstate (OrderedSet ([] :: 'a list)) = NoneTuple \<and>
         setstate NoneTuple = OrderedSet ([] :: 'a list) \<and>
         len (OrderedSet ([] :: 'a list)) = 0"
proof -
  from assms have d: "distinct (items s)" and m: "map_idx s = rebuild_map (items s)"
    by (simp_all add: invariant_iff)
  have s: "s = \<lparr>items = items s, map_idx = rebuild_map (items s)\<rparr>"
    using m by simp
  have os: "OrderedSet (items s) = s"
    using OrderedSet_distinct [OF d] s by simp
  have e: "items (OrderedSet ([] :: 'a list)) = []" by (simp add: items_OrderedSet)
  have rt: "setstate (getstate s) = s"
  proof (cases "items s = []")
    case True
    then show ?thesis using os by (simp add: getstate_def setstate_def len_def)
  next
    case False
    then show ?thesis using os by (simp add: getstate_def setstate_def len_def)
  qed
  have t: "truthy (getstate s)" by (simp add: getstate_def truthy_def len_def)
  have n: "getstate s = NoneTuple \<longleftrightarrow> len s = 0" by (simp add: getstate_def)
  have g: "getstate (OrderedSet ([] :: 'a list)) = NoneTuple"
    using e by (simp add: getstate_def len_def)
  have st: "setstate NoneTuple = OrderedSet ([] :: 'a list)" by (simp add: setstate_def)
  have l: "len (OrderedSet ([] :: 'a list)) = 0" using e by (simp add: len_def)
  show ?thesis using rt t n g st l by (simp add: eq_os_def)
qed

theorem pickle_roundtrip_witness:
  "setstate (getstate (OrderedSet [''a'', ''b''])) = OrderedSet [''a'', ''b''] \<and>
   getstate (OrderedSet [''a'', ''b'']) = ItemList [''a'', ''b''] \<and>
   setstate (getstate (OrderedSet ([] :: string list))) = OrderedSet [] \<and>
   truthy (getstate (OrderedSet ([] :: string list)))"
proof -
  note ab = pickle_roundtrip [OF invariant_OrderedSet [of "[''a'', ''b'']"]]
  note em = pickle_roundtrip [OF invariant_OrderedSet [of "[] :: string list"]]
  have 1: "setstate (getstate (OrderedSet [''a'', ''b''])) = OrderedSet [''a'', ''b'']"
    using ab by blast
  have 2: "getstate (OrderedSet [''a'', ''b'']) = ItemList [''a'', ''b'']"
    by (simp add: getstate_def len_def items_OrderedSet)
  have 3: "setstate (getstate (OrderedSet ([] :: string list))) = OrderedSet []"
    using em by blast
  have 4: "truthy (getstate (OrderedSet ([] :: string list)))"
    using em by blast
  show ?thesis using 1 2 3 4 by blast
qed

section \<open>Symmetric difference\<close>

lemma in_any_single: "in_any [other] item \<longleftrightarrow> item \<in> set other"
  by (simp add: in_any_def)

lemma in_all_single: "in_all [other] item \<longleftrightarrow> item \<in> set other"
  by (simp add: in_all_def)

lemma unseen_filter_nil: "unseen [] (filter P xs) = filter P (unseen [] xs)"
  by (rule unseen_filter) simp

lemma unseen_idem: "unseen [] (unseen [] xs) = unseen [] xs"
  by (rule unseen_distinct) (simp_all add: distinct_unseen)

lemma items_difference_single:
  "items (difference s [other]) = filter (\<lambda>x. x \<notin> set other) (unseen [] (items s))"
  by (simp add: difference_def items_OrderedSet in_any_single unseen_filter_nil)

text \<open>
  Claim C7. \<open>symmetric_difference(other)\<close> builds a set whose sequence is the elements of
  \<open>self\<close> that are not in \<open>other\<close>, in the order of \<open>self\<close>, followed by the elements of
  \<open>other\<close> that are not in \<open>self\<close>, in the order of \<open>other\<close> (repetitions collapsed to the
  first occurrence). Its elements are exactly those in one of the two collections and not in
  the other, it satisfies the core invariant, and it is the union of \<open>self - other\<close> and
  \<open>other - self\<close>. For \<open>["a","b","c"]\<close> and \<open>["b","d"]\<close> the result is \<open>["a","c","d"]\<close>.
\<close>

theorem symmetric_difference_correct:
  "items (symmetric_difference s other) =
     filter (\<lambda>x. x \<notin> set other) (unseen [] (items s)) @
     filter (\<lambda>x. x \<notin> set (items s)) (unseen [] other) \<and>
   set (items (symmetric_difference s other)) =
     (set (items s) - set other) \<union> (set other - set (items s)) \<and>
   invariant (symmetric_difference s other) \<and>
   symmetric_difference s other =
     union_os (difference s [other]) [items (difference (OrderedSet other) [items s])] \<and>
   (invariant s \<and> distinct other \<longrightarrow>
      items (symmetric_difference s other) =
        filter (\<lambda>x. x \<notin> set other) (items s) @ filter (\<lambda>x. x \<notin> set (items s)) other)"
proof -
  let ?d1 = "filter (\<lambda>x. x \<notin> set other) (unseen [] (items s))"
  let ?d2 = "filter (\<lambda>x. x \<notin> set (items s)) (unseen [] other)"
  have d1: "items (difference (OrderedSet (items s)) [other]) = ?d1"
    by (simp add: items_difference_single items_OrderedSet unseen_idem)
  have d1': "items (difference s [other]) = ?d1"
    by (rule items_difference_single)
  have d2: "items (difference (OrderedSet other) [items s]) = ?d2"
    by (simp add: items_difference_single items_OrderedSet unseen_idem)
  have dist: "distinct (?d1 @ ?d2)"
    by (auto simp: distinct_unseen set_unseen)
  have sd: "symmetric_difference s other = OrderedSet (?d1 @ ?d2)"
    by (simp add: symmetric_difference_def Let_def union_os_def d1 d2)
  have it: "items (symmetric_difference s other) = ?d1 @ ?d2"
    unfolding sd items_OrderedSet using dist by (simp add: unseen_distinct)
  have st: "set (items (symmetric_difference s other)) =
     (set (items s) - set other) \<union> (set other - set (items s))"
    unfolding it by (auto simp: set_unseen)
  have inv: "invariant (symmetric_difference s other)"
    unfolding sd by (rule invariant_OrderedSet)
  have un: "symmetric_difference s other =
     union_os (difference s [other]) [items (difference (OrderedSet other) [items s])]"
    by (simp add: sd union_os_def d1' d2)
  have v: "items (symmetric_difference s other) =
        filter (\<lambda>x. x \<notin> set other) (items s) @ filter (\<lambda>x. x \<notin> set (items s)) other"
    if "invariant s" "distinct other"
    using that it by (simp add: invariant_iff unseen_distinct)
  show ?thesis using it st inv un v by blast
qed

theorem symmetric_difference_witness:
  "items (symmetric_difference (OrderedSet [''a'', ''b'', ''c'']) [''b'', ''d'']) =
     [''a'', ''c'', ''d'']"
proof -
  have inv: "invariant (OrderedSet [''a'', ''b'', ''c''])" by (rule invariant_OrderedSet)
  have it: "items (OrderedSet [''a'', ''b'', ''c'']) = [''a'', ''b'', ''c'']"
    by (simp add: items_OrderedSet)
  have d: "distinct [''b'', ''d'']" by simp
  have "items (symmetric_difference (OrderedSet [''a'', ''b'', ''c'']) [''b'', ''d'']) =
      filter (\<lambda>x. x \<notin> set [''b'', ''d'']) (items (OrderedSet [''a'', ''b'', ''c''])) @
      filter (\<lambda>x. x \<notin> set (items (OrderedSet [''a'', ''b'', ''c'']))) [''b'', ''d'']"
    using symmetric_difference_correct [of "OrderedSet [''a'', ''b'', ''c'']" "[''b'', ''d'']"]
      inv d by blast
  then show ?thesis by (simp add: it)
qed

section \<open>Removal by value and by position\<close>

lemma del_nth_filter:
  "distinct xs \<Longrightarrow> j < length xs \<Longrightarrow> del_nth j xs = filter (\<lambda>x. x \<noteq> xs ! j) xs"
proof (induction xs arbitrary: j)
  case Nil
  then show ?case by simp
next
  case (Cons a xs)
  show ?case
  proof (cases j)
    case 0
    have "filter (\<lambda>x. x \<noteq> a) xs = xs" using Cons.prems by (auto simp: filter_id_conv)
    then show ?thesis using 0 by (simp add: del_nth_def)
  next
    case (Suc k)
    then have "del_nth k xs = filter (\<lambda>x. x \<noteq> xs ! k) xs"
      using Cons.prems Cons.IH [of k] by simp
    moreover have "a \<noteq> xs ! k" using Cons.prems Suc by auto
    ultimately show ?thesis using Suc by (simp add: del_nth_def)
  qed
qed

lemma length_del_nth: "j < length xs \<Longrightarrow> length (del_nth j xs) = length xs - 1"
  by (simp add: del_nth_def)

lemma nth_del_nth:
  "j < length xs \<Longrightarrow> k < length xs - 1 \<Longrightarrow>
   del_nth j xs ! k = (if k < j then xs ! k else xs ! Suc k)"
  by (auto simp: del_nth_def nth_append min_def)

lemma distinct_del_nth: "distinct xs \<Longrightarrow> j < length xs \<Longrightarrow> distinct (del_nth j xs)"
  by (simp add: del_nth_filter)

lemma set_del_nth: "distinct xs \<Longrightarrow> j < length xs \<Longrightarrow> set (del_nth j xs) = set xs - {xs ! j}"
  by (auto simp: del_nth_filter)

lemma shift_down_rebuild:
  assumes d: "distinct xs" and j: "j < length xs"
  shows "shift_down (int j) ((rebuild_map xs)(xs ! j := None)) = rebuild_map (del_nth j xs)"
proof
  fix x
  let ?ys = "del_nth j xs"
  have dy: "distinct ?ys" using d j by (rule distinct_del_nth)
  have ly: "length ?ys = length xs - 1" using j by (rule length_del_nth)
  show "shift_down (int j) ((rebuild_map xs)(xs ! j := None)) x = rebuild_map ?ys x"
  proof (cases "x \<in> set ?ys")
    case False
    then have "x = xs ! j \<or> x \<notin> set xs" using set_del_nth [OF d j] by auto
    then have "((rebuild_map xs)(xs ! j := None)) x = None"
      by (auto simp: rebuild_map_notin)
    then show ?thesis using False by (simp add: shift_down_def rebuild_map_notin)
  next
    case True
    then obtain k where k: "k < length ?ys" "?ys ! k = x" by (auto simp: in_set_conv_nth)
    then have r: "rebuild_map ?ys x = Some (int k)" using rebuild_map_nth [OF dy, of k] by simp
    have ne: "x \<noteq> xs ! j" using True set_del_nth [OF d j] by auto
    show ?thesis
    proof (cases "k < j")
      case True
      then have "x = xs ! k" using k nth_del_nth [OF j, of k] ly by simp
      moreover have "rebuild_map xs (xs ! k) = Some (int k)"
        using rebuild_map_nth [OF d, of k] True j by simp
      ultimately show ?thesis using ne r True by (simp add: shift_down_def)
    next
      case False
      then have x: "x = xs ! Suc k" using k nth_del_nth [OF j, of k] ly by simp
      have "Suc k < length xs" using k ly j by simp
      then have "rebuild_map xs (xs ! Suc k) = Some (int (Suc k))"
        using rebuild_map_nth [OF d, of "Suc k"] by simp
      then show ?thesis using ne r False x by (simp add: shift_down_def)
    qed
  qed
qed

lemma invariant_rebuilt: "distinct xs \<Longrightarrow> invariant \<lparr>items = xs, map_idx = rebuild_map xs\<rparr>"
  by (simp add: invariant_iff)

lemma update_items_eq: "update_items s xs = \<lparr>items = xs, map_idx = rebuild_map xs\<rparr>"
  by (simp add: update_items_def)

lemma invariant_position:
  "invariant s \<Longrightarrow> j < length (items s) \<Longrightarrow> map_idx s (items s ! j) = Some (int j)"
  by (simp add: invariant_def)

lemma delitem_at:
  "j < length (items s) \<Longrightarrow>
   delitem s (int j) = (Inr (), \<lparr>items = del_nth j (items s), map_idx = rebuild_map (del_nth j (items s))\<rparr>)"
  by (simp add: delitem_def index_ok_def list_delitem_def norm_index_def)

lemma discard_at:
  assumes inv: "invariant s" and j: "j < length (items s)"
  shows "discard s (items s ! j) =
     (Inr (), \<lparr>items = del_nth j (items s), map_idx = rebuild_map (del_nth j (items s))\<rparr>)"
proof -
  from inv have d: "distinct (items s)" and m: "map_idx s = rebuild_map (items s)"
    by (simp_all add: invariant_iff)
  have p: "map_idx s (items s ! j) = Some (int j)" using inv j by (rule invariant_position)
  have sh: "shift_down (int j) ((map_idx s)(items s ! j := None)) = rebuild_map (del_nth j (items s))"
    using shift_down_rebuild [OF d j] m by simp
  show ?thesis
    using p j sh by (simp add: discard_def contains_def list_delitem_def index_ok_def norm_index_def)
qed

lemma discard_absent: "\<not> contains s v \<Longrightarrow> discard s v = (Inr (), s)"
  by (simp add: discard_def)

text \<open>
  Claim C8. In every state that satisfies the core invariant, \<open>discard(value)\<close> raises
  nothing and keeps the invariant. When the value is absent the state is unchanged. When it
  is present at position \<open>j\<close>, deleting it from the sequence and lowering the stored index of
  every element after it gives exactly the state that \<open>__delitem__\<close> at \<open>j\<close> gives, which is
  the sequence without the value together with the fully rebuilt position index.
\<close>

theorem discard_correct:
  assumes "invariant s"
  shows "fst (discard s v) = Inr () \<and>
         invariant (snd (discard s v)) \<and>
         (v \<notin> set (items s) \<longrightarrow> snd (discard s v) = s) \<and>
         (v \<in> set (items s) \<longrightarrow>
            (\<exists>j. j < len s \<and> items s ! j = v \<and> map_idx s v = Some (int j) \<and>
                 discard s v = delitem s (int j) \<and>
                 snd (discard s v) = update_items s (del_nth j (items s)) \<and>
                 items (snd (discard s v)) = filter (\<lambda>x. x \<noteq> v) (items s)))"
proof (cases "v \<in> set (items s)")
  case False
  then have "\<not> contains s v" using contains_iff [OF assms] by simp
  then have "discard s v = (Inr (), s)" by (rule discard_absent)
  then show ?thesis using False assms by simp
next
  case True
  then obtain j where j: "j < length (items s)" "items s ! j = v"
    by (auto simp: in_set_conv_nth)
  from assms have d: "distinct (items s)" by (simp add: invariant_iff)
  have dis: "discard s v =
     (Inr (), \<lparr>items = del_nth j (items s), map_idx = rebuild_map (del_nth j (items s))\<rparr>)"
    using discard_at [OF assms j(1)] j(2) by simp
  have del: "delitem s (int j) = discard s v"
    using delitem_at [OF j(1)] dis by simp
  have inv: "invariant (snd (discard s v))"
    unfolding dis using distinct_del_nth [OF d j(1)] by (simp add: invariant_rebuilt)
  have p: "map_idx s v = Some (int j)" using invariant_position [OF assms j(1)] j(2) by simp
  have f: "items (snd (discard s v)) = filter (\<lambda>x. x \<noteq> v) (items s)"
    unfolding dis using del_nth_filter [OF d j(1)] j(2) by simp
  have u: "snd (discard s v) = update_items s (del_nth j (items s))"
    unfolding dis by (simp add: update_items_eq)
  have "\<exists>j. j < len s \<and> items s ! j = v \<and> map_idx s v = Some (int j) \<and>
                 discard s v = delitem s (int j) \<and>
                 snd (discard s v) = update_items s (del_nth j (items s)) \<and>
                 items (snd (discard s v)) = filter (\<lambda>x. x \<noteq> v) (items s)"
    using j p del u f by (auto simp: len_def)
  moreover have "fst (discard s v) = Inr ()" using dis by simp
  ultimately show ?thesis using True inv by blast
qed

theorem discard_correct_witness:
  "fst (discard (OrderedSet [''a'', ''b'', ''c'']) ''b'') = Inr () \<and>
   items (snd (discard (OrderedSet [''a'', ''b'', ''c'']) ''b'')) = [''a'', ''c''] \<and>
   snd (discard (OrderedSet [''a'', ''b'', ''c'']) ''z'') = OrderedSet [''a'', ''b'', ''c'']"
proof -
  let ?s = "OrderedSet [''a'', ''b'', ''c'']"
  have inv: "invariant ?s" by (rule invariant_OrderedSet)
  have it: "items ?s = [''a'', ''b'', ''c'']" by (simp add: items_OrderedSet)
  have b: "''b'' \<in> set (items ?s)" and z: "''z'' \<notin> set (items ?s)" by (simp_all add: it)
  have 1: "fst (discard ?s ''b'') = Inr ()" using discard_correct [OF inv, of "''b''"] by blast
  have "items (snd (discard ?s ''b'')) = filter (\<lambda>x. x \<noteq> ''b'') (items ?s)"
    using discard_correct [OF inv, of "''b''"] b by blast
  then have 2: "items (snd (discard ?s ''b'')) = [''a'', ''c'']" by (simp add: it)
  have 3: "snd (discard ?s ''z'') = ?s" using discard_correct [OF inv, of "''z''"] z by blast
  show ?thesis using 1 2 3 by blast
qed

section \<open>Positional replacement\<close>

lemma norm_index_ok:
  "index_ok index xs \<Longrightarrow>
   norm_index index xs < length xs \<and>
   (if index < 0 then index + int (length xs) else index) = int (norm_index index xs)"
  by (auto simp: index_ok_def norm_index_def)

lemma list_setitem_nat:
  "i < length xs \<Longrightarrow> list_setitem xs (int i) v = Inr (xs[i := v])"
  by (simp add: list_setitem_def index_ok_def norm_index_def)

lemma list_delitem_nat:
  "j < length xs \<Longrightarrow> list_delitem xs (int j) = Inr (del_nth j xs)"
  by (simp add: list_delitem_def index_ok_def norm_index_def)

lemma setitem_out_of_range:
  "\<not> index_ok index (items s) \<Longrightarrow> setitem s index v = (Inl IndexError, s)"
  by (simp add: setitem_def)

lemma setitem_new:
  assumes inv: "invariant s" and ok: "index_ok index (items s)" and new: "v \<notin> set (items s)"
  shows "setitem s index v =
     (Inr (), \<lparr>items = (items s)[norm_index index (items s) := v],
               map_idx = rebuild_map ((items s)[norm_index index (items s) := v])\<rparr>)"
proof -
  have m: "map_idx s v = None" using contains_iff [OF inv, of v] new by (simp add: contains_def)
  note n = norm_index_ok [OF ok]
  show ?thesis
    using ok m n by (simp add: setitem_def list_setitem_nat)
qed

lemma setitem_same:
  assumes inv: "invariant s" and ok: "index_ok index (items s)"
    and same: "items s ! norm_index index (items s) = v"
  shows "setitem s index v = (Inr (), s)"
proof -
  note n = norm_index_ok [OF ok]
  have m: "map_idx s v = Some (int (norm_index index (items s)))"
    using invariant_position [OF inv, of "norm_index index (items s)"] n same by simp
  show ?thesis using ok m n by (simp add: setitem_def)
qed

lemma setitem_move:
  assumes inv: "invariant s" and ok: "index_ok index (items s)"
    and j: "j < length (items s)" "items s ! j = v" and ne: "j \<noteq> norm_index index (items s)"
  shows "setitem s index v =
     (Inr (), \<lparr>items = (del_nth j (items s))
                  [(if j < norm_index index (items s) then norm_index index (items s) - 1
                    else norm_index index (items s)) := v],
               map_idx = rebuild_map ((del_nth j (items s))
                  [(if j < norm_index index (items s) then norm_index index (items s) - 1
                    else norm_index index (items s)) := v])\<rparr>)"
proof -
  let ?i = "norm_index index (items s)"
  note n = norm_index_ok [OF ok]
  have m: "map_idx s v = Some (int j)" using invariant_position [OF inv j(1)] j(2) by simp
  have l: "length (del_nth j (items s)) = length (items s) - 1" using j(1) by (rule length_del_nth)
  show ?thesis
  proof (cases "j < ?i")
    case True
    then have "?i - 1 < length (del_nth j (items s))" using n [THEN conjunct1] l by arith
    then have "list_setitem (del_nth j (items s)) (int (?i - 1)) v =
        Inr ((del_nth j (items s))[?i - 1 := v])" by (rule list_setitem_nat)
    moreover have "int (?i - 1) = int ?i - 1" using True by simp
    ultimately show ?thesis
      using ok m n True ne j(1) by (simp add: setitem_def list_delitem_nat)
  next
    case False
    then have "?i < length (del_nth j (items s))" using n [THEN conjunct1] l ne j(1) by arith
    then have "list_setitem (del_nth j (items s)) (int ?i) v =
        Inr ((del_nth j (items s))[?i := v])" by (rule list_setitem_nat)
    then show ?thesis
      using ok m n False ne j(1) by (simp add: setitem_def list_delitem_nat)
  qed
qed

lemma distinct_update_new:
  "distinct xs \<Longrightarrow> v \<notin> set xs \<Longrightarrow> distinct (xs[i := v])"
  by (rule distinct_list_update) simp_all

lemma distinct_move:
  assumes "distinct xs" "j < length xs"
  shows "distinct ((del_nth j xs)[k := xs ! j])"
proof -
  have "distinct (del_nth j xs)" using assms by (rule distinct_del_nth)
  moreover have "xs ! j \<notin> set (del_nth j xs)" using set_del_nth [OF assms] by simp
  ultimately show ?thesis by (rule distinct_update_new)
qed

text \<open>
  Claim C5. In a state that satisfies the core invariant, \<open>__setitem__\<close> (the spec's
  \<open>set_at\<close>) raises \<open>IndexError\<close> and changes nothing when the index is outside
  \<open>-size <= index < size\<close>. Inside the range, with \<open>i\<close> the index counted from the front:
  a value that is not in the set replaces the element at \<open>i\<close>; a value that already sits at
  \<open>i\<close> leaves the set as it is; a value that sits at another position \<open>j\<close> is first deleted
  there (the later elements move one place to the left) and then written at \<open>i - 1\<close> when
  \<open>j < i\<close> and at \<open>i\<close> otherwise. The position index is rebuilt and the invariant holds
  afterwards. For \<open>["a","b","c"]\<close>, \<open>set_at(0, "c")\<close> gives \<open>["c","b"]\<close>.
\<close>

theorem setitem_correct:
  assumes "invariant s"
  shows
    "(\<not> (- int (len s) \<le> index \<and> index < int (len s)) \<longrightarrow>
        setitem s index v = (Inl IndexError, s)) \<and>
     (- int (len s) \<le> index \<and> index < int (len s) \<longrightarrow>
        (let i = nat (if index < 0 then index + int (len s) else index) in
           i < len s \<and>
           (v \<notin> set (items s) \<longrightarrow>
              setitem s index v = (Inr (), update_items s ((items s)[i := v]))) \<and>
           (items s ! i = v \<longrightarrow> setitem s index v = (Inr (), s)) \<and>
           (\<forall>j. j < len s \<and> items s ! j = v \<and> j \<noteq> i \<longrightarrow>
              setitem s index v =
                (Inr (), update_items s
                   ((del_nth j (items s))[(if j < i then i - 1 else i) := v]))) \<and>
           invariant (snd (setitem s index v))))"
proof -
  let ?i = "norm_index index (items s)"
  from assms have d: "distinct (items s)" by (simp add: invariant_iff)
  have ok_iff: "index_ok index (items s) \<longleftrightarrow> - int (len s) \<le> index \<and> index < int (len s)"
    by (simp add: index_ok_def len_def)
  have i_eq: "nat (if index < 0 then index + int (len s) else index) = ?i"
    by (simp add: norm_index_def len_def)
  have a: "setitem s index v = (Inl IndexError, s)" if "\<not> index_ok index (items s)"
    using that by (rule setitem_out_of_range)
  have b: "?i < len s" if "index_ok index (items s)"
    using norm_index_ok [OF that] by (simp add: len_def)
  have c: "setitem s index v = (Inr (), update_items s ((items s)[?i := v]))"
    if "index_ok index (items s)" "v \<notin> set (items s)"
    using setitem_new [OF assms that] by (simp add: update_items_eq)
  have e: "setitem s index v = (Inr (), s)" if "index_ok index (items s)" "items s ! ?i = v"
    using setitem_same [OF assms that] .
  have f: "setitem s index v =
      (Inr (), update_items s ((del_nth j (items s))[(if j < ?i then ?i - 1 else ?i) := v]))"
    if "index_ok index (items s)" "j < len s" "items s ! j = v" "j \<noteq> ?i" for j
    using setitem_move [OF assms that(1) _ that(3) that(4)] that(2)
    by (simp add: update_items_eq len_def)
  have g: "invariant (snd (setitem s index v))" if ok: "index_ok index (items s)"
  proof (cases "v \<in> set (items s)")
    case False
    then show ?thesis
      using setitem_new [OF assms ok False] distinct_update_new [OF d False]
      by (simp add: invariant_rebuilt)
  next
    case True
    then obtain j where j: "j < length (items s)" "items s ! j = v"
      by (auto simp: in_set_conv_nth)
    show ?thesis
    proof (cases "j = ?i")
      case True
      then show ?thesis using setitem_same [OF assms ok] j assms by simp
    next
      case False
      show ?thesis
        using setitem_move [OF assms ok j False] distinct_move [OF d j(1)] j(2)
        by (simp add: invariant_rebuilt)
    qed
  qed
  show ?thesis
    unfolding Let_def i_eq ok_iff [symmetric] using a b c e f g by blast
qed

theorem setitem_correct_witness:
  "items (snd (setitem (OrderedSet [''a'', ''b'', ''c'']) 0 ''c'')) = [''c'', ''b''] \<and>
   fst (setitem (OrderedSet [''a'', ''b'', ''c'']) 0 ''c'') = Inr () \<and>
   setitem (OrderedSet [''a'', ''b'', ''c'']) 3 ''x'' = (Inl IndexError, OrderedSet [''a'', ''b'', ''c'']) \<and>
   setitem (OrderedSet [''a'', ''b'', ''c'']) (- 4) ''x''
     = (Inl IndexError, OrderedSet [''a'', ''b'', ''c'']) \<and>
   setitem (OrderedSet [''a'', ''b'', ''c'']) 1 ''b'' = (Inr (), OrderedSet [''a'', ''b'', ''c'']) \<and>
   items (snd (setitem (OrderedSet [''a'', ''b'', ''c'']) (- 1) ''z'')) = [''a'', ''b'', ''z'']"
proof -
  let ?s = "OrderedSet [''a'', ''b'', ''c'']"
  have inv: "invariant ?s" by (rule invariant_OrderedSet)
  have it: "items ?s = [''a'', ''b'', ''c'']" by (simp add: items_OrderedSet)
  have l: "len ?s = 3" by (simp add: len_def it)
  have "setitem ?s 0 ''c'' =
      (Inr (), update_items ?s ((del_nth 2 (items ?s))[(if (2::nat) < 0 then 0 - 1 else 0) := ''c'']))"
    using setitem_correct [OF inv, of 0 "''c''"] by (simp add: l it Let_def)
  then have 1: "items (snd (setitem ?s 0 ''c'')) = [''c'', ''b'']"
    and 2: "fst (setitem ?s 0 ''c'') = Inr ()"
    by (simp_all add: it del_nth_def update_items_def)
  have 3: "setitem ?s 3 ''x'' = (Inl IndexError, ?s)"
    using setitem_correct [OF inv, of 3 "''x''"] by (simp add: l)
  have 4: "setitem ?s (- 4) ''x'' = (Inl IndexError, ?s)"
    using setitem_correct [OF inv, of "- 4" "''x''"] by (simp add: l)
  have 5: "setitem ?s 1 ''b'' = (Inr (), ?s)"
    using setitem_correct [OF inv, of 1 "''b''"] by (simp add: l it Let_def)
  have "setitem ?s (- 1) ''z'' = (Inr (), update_items ?s ((items ?s)[2 := ''z'']))"
    using setitem_correct [OF inv, of "- 1" "''z''"] by (simp add: l it Let_def)
  then have 6: "items (snd (setitem ?s (- 1) ''z'')) = [''a'', ''b'', ''z'']"
    by (simp add: it update_items_def)
  show ?thesis using 1 2 3 4 5 6 by blast
qed

section \<open>The state an error leaves\<close>

lemma pop_error_state: "fst (pop s index) = Inl e \<Longrightarrow> snd (pop s index) = s"
  by (auto simp: pop_def split: if_splits sum.splits)

lemma delitem_error_state: "fst (delitem s index) = Inl e \<Longrightarrow> snd (delitem s index) = s"
  by (auto simp: delitem_def Let_def split: if_splits sum.splits)

lemma discard_error_state: "fst (discard s v) = Inl e \<Longrightarrow> snd (discard s v) = s"
  by (auto simp: discard_def split: if_splits option.splits sum.splits)

lemma remove_error_state: "fst (remove s v) = Inl e \<Longrightarrow> snd (remove s v) = s"
  by (auto simp: remove_def discard_error_state split: if_splits)

lemma setitem_returns:
  assumes inv: "invariant s" and ok: "index_ok index (items s)"
  shows "fst (setitem s index v) = Inr ()"
proof (cases "v \<in> set (items s)")
  case False
  then show ?thesis using setitem_new [OF inv ok] by simp
next
  case True
  then obtain j where j: "j < length (items s)" "items s ! j = v"
    by (auto simp: in_set_conv_nth)
  show ?thesis
  proof (cases "j = norm_index index (items s)")
    case True
    then show ?thesis using setitem_same [OF inv ok] j by simp
  next
    case False
    then show ?thesis using setitem_move [OF inv ok j] by simp
  qed
qed

lemma setitem_error_state:
  "invariant s \<Longrightarrow> fst (setitem s index v) = Inl e \<Longrightarrow> snd (setitem s index v) = s"
  using setitem_returns [of s index v] setitem_out_of_range [of index s v]
  by (cases "index_ok index (items s)") auto

lemma update_error_cause:
  "fst (update_from s i sequences) = Inl e \<Longrightarrow> NotIterable \<in> set sequences"
  using update_from_returns [of sequences s i] by (cases "NotIterable \<in> set sequences") auto

lemma notin_takeWhile: "NotIterable \<notin> set (takeWhile (\<lambda>src. src \<noteq> NotIterable) sequences)"
  by (auto dest: set_takeWhileD)

text \<open>
  Claim C2, as stated, fails for \<open>update\<close>: the elements of the sources that precede a
  source that is not iterable have been added when the error is raised, and they stay.
\<close>

theorem update_error_keeps_insertions:
  "fst (update (OrderedSet [''a'']) [Iterable [''b''], NotIterable]) = Inl ValueError \<and>
   items (snd (update (OrderedSet [''a'']) [Iterable [''b''], NotIterable])) = [''a'', ''b''] \<and>
   items (OrderedSet [''a'']) = [''a''] \<and>
   snd (update (OrderedSet [''a'']) [Iterable [''b''], NotIterable]) \<noteq> OrderedSet [''a'']"
proof -
  have ev: "OrderedSet [''a''] = \<lparr>items = [''a''], map_idx = [''a'' \<mapsto> 0]\<rparr>"
    by (simp add: OrderedSet_def update_def add_def empty_os_def)
  have 1: "fst (update (OrderedSet [''a'']) [Iterable [''b''], NotIterable]) = Inl ValueError"
    by (simp add: update_def split_beta)
  have 2: "items (snd (update (OrderedSet [''a'']) [Iterable [''b''], NotIterable])) = [''a'', ''b'']"
    unfolding ev by (simp add: update_def add_def)
  have 3: "items (OrderedSet [''a'']) = [''a'']" unfolding ev by simp
  have 4: "snd (update (OrderedSet [''a'']) [Iterable [''b''], NotIterable]) \<noteq> OrderedSet [''a'']"
    using 2 3 by auto
  show ?thesis using 1 2 3 4 by blast
qed

text \<open>
  Claim C2, amended. When \<open>pop\<close>, \<open>__delitem__\<close> or \<open>remove\<close> raises, the set is exactly
  as it was before the call, and so it is when \<open>__setitem__\<close> raises in a state that
  satisfies the core invariant. When \<open>update\<close> raises, one of its sources is not iterable,
  and the set is the one a successful \<open>update\<close> with the sources before the first such
  source leaves: every element of those sources has been added.
\<close>

theorem error_leaves_state:
  "(fst (pop s index) = Inl e \<longrightarrow> snd (pop s index) = s) \<and>
   (fst (delitem s index) = Inl e \<longrightarrow> snd (delitem s index) = s) \<and>
   (fst (remove s v) = Inl e \<longrightarrow> snd (remove s v) = s) \<and>
   (invariant s \<and> fst (setitem s index v) = Inl e \<longrightarrow> snd (setitem s index v) = s) \<and>
   (fst (update s sequences) = Inl e \<longrightarrow>
      NotIterable \<in> set sequences \<and>
      snd (update s sequences) =
        snd (update s (takeWhile (\<lambda>src. src \<noteq> NotIterable) sequences)) \<and>
      snd (update s sequences) =
        add_all s (concat (map yields (takeWhile (\<lambda>src. src \<noteq> NotIterable) sequences))) \<and>
      (\<exists>i. fst (update s (takeWhile (\<lambda>src. src \<noteq> NotIterable) sequences)) = Inr i))"
proof -
  let ?pre = "takeWhile (\<lambda>src. src \<noteq> NotIterable) sequences"
  have u1: "NotIterable \<in> set sequences" if "fst (update s sequences) = Inl e"
    using that by (auto simp: update_def dest: update_error_cause)
  have u2: "snd (update s sequences) = add_all s (concat (map yields ?pre))"
    by (simp add: update_def update_from_state)
  have u3: "update s ?pre =
      (Inr (fst (add_each s 0 (concat (map yields ?pre)))), add_all s (concat (map yields ?pre)))"
    unfolding update_def by (rule update_from_returns) (rule notin_takeWhile)
  have u4: "snd (update s sequences) = snd (update s ?pre)" using u2 u3 by simp
  have u5: "\<exists>i. fst (update s ?pre) = Inr i" using u3 by simp
  show ?thesis
    using pop_error_state [of s index e] delitem_error_state [of s index e]
      remove_error_state [of s v e] setitem_error_state [of s index v e] u1 u2 u4 u5
    by blast
qed

theorem error_leaves_state_witness:
  "pop (OrderedSet ([] :: string list)) (- 1) = (Inl KeyError, OrderedSet []) \<and>
   pop (OrderedSet [''a'']) 5 = (Inl IndexError, OrderedSet [''a'']) \<and>
   delitem (OrderedSet [''a'']) 5 = (Inl IndexError, OrderedSet [''a'']) \<and>
   remove (OrderedSet [''a'']) ''z'' = (Inl KeyError, OrderedSet [''a'']) \<and>
   setitem (OrderedSet [''a'']) (- 5) ''x'' = (Inl IndexError, OrderedSet [''a'']) \<and>
   fst (update (OrderedSet [''a'']) [Iterable [''b''], NotIterable, Iterable [''c'']])
     = Inl ValueError \<and>
   items (snd (update (OrderedSet [''a'']) [Iterable [''b''], NotIterable, Iterable [''c'']]))
     = [''a'', ''b'']"
proof -
  let ?e = "OrderedSet ([] :: string list)"
  let ?s = "OrderedSet [''a'']"
  let ?srcs = "[Iterable [''b''], NotIterable, Iterable [''c'']]"
  have inv: "invariant ?s" by (rule invariant_OrderedSet)
  have ite: "items ?e = []" and it: "items ?s = [''a'']" by (simp_all add: items_OrderedSet)
  have m: "map_idx ?s ''z'' = None"
    by (simp add: OrderedSet_def update_def add_def empty_os_def)
  have f1: "fst (pop ?e (- 1)) = Inl KeyError" by (simp add: pop_def ite)
  have f2: "fst (pop ?s 5) = Inl IndexError"
    by (simp add: pop_def it list_getitem_def index_ok_def)
  have f3: "fst (delitem ?s 5) = Inl IndexError" by (simp add: delitem_def it index_ok_def)
  have f4: "fst (remove ?s ''z'') = Inl KeyError" by (simp add: remove_def contains_def m)
  have f5: "fst (setitem ?s (- 5) ''x'') = Inl IndexError"
    by (simp add: setitem_def it index_ok_def)
  have f6: "fst (update ?s ?srcs) = Inl ValueError"
    by (simp add: update_def split_beta)
  have 1: "snd (pop ?e (- 1)) = ?e"
    using error_leaves_state [where s = ?e and index = "- 1" and e = KeyError] f1 by blast
  have 2: "snd (pop ?s 5) = ?s"
    using error_leaves_state [where s = ?s and index = 5 and e = IndexError] f2 by blast
  have 3: "snd (delitem ?s 5) = ?s"
    using error_leaves_state [where s = ?s and index = 5 and e = IndexError] f3 by blast
  have 4: "snd (remove ?s ''z'') = ?s"
    using error_leaves_state [where s = ?s and e = KeyError and v = "''z''"] f4 by blast
  have 5: "snd (setitem ?s (- 5) ''x'') = ?s"
    using error_leaves_state [where s = ?s and index = "- 5" and e = IndexError and v = "''x''"] f5 inv by blast
  have "snd (update ?s ?srcs) =
      add_all ?s (concat (map yields (takeWhile (\<lambda>src. src \<noteq> NotIterable) ?srcs)))"
    using error_leaves_state [where s = ?s and e = ValueError and sequences = ?srcs] f6 by blast
  then have "items (snd (update ?s ?srcs)) = items (add_all ?s [''b''])" by simp
  also have "\<dots> = [''a'', ''b'']"
    using add_all_invariant [OF inv, of "[''b'']"] by (simp add: it)
  finally have 6: "items (snd (update ?s ?srcs)) = [''a'', ''b'']" .
  show ?thesis using f1 f2 f3 f4 f5 f6 1 2 3 4 5 6 by (simp add: prod_eq_iff)
qed

section \<open>Preservation of the core invariant\<close>

lemma invariant_update_items: "distinct xs \<Longrightarrow> invariant (update_items s xs)"
  by (simp add: update_items_eq invariant_rebuilt)

lemma invariant_update: "invariant s \<Longrightarrow> invariant (snd (update s sequences))"
  using add_all_invariant [of s] by (simp add: update_def update_from_state)

lemma invariant_append: "invariant s \<Longrightarrow> invariant (snd (append s key))"
  by (simp add: append_def invariant_add)

lemma invariant_delitem: "invariant s \<Longrightarrow> invariant (snd (delitem s index))"
proof (cases "index_ok index (items s)")
  case False
  assume "invariant s"
  then show ?thesis using False by (simp add: delitem_def)
next
  case True
  assume inv: "invariant s"
  then have d: "distinct (items s)" by (simp add: invariant_iff)
  note n = norm_index_ok [OF True]
  have "delitem s index = delitem s (int (norm_index index (items s)))"
    using True n by (simp add: delitem_def index_ok_def)
  then show ?thesis
    using delitem_at [of "norm_index index (items s)" s] n distinct_del_nth [OF d, of "norm_index index (items s)"]
    by (simp add: invariant_rebuilt)
qed

lemma invariant_pop: "invariant s \<Longrightarrow> invariant (snd (pop s index))"
proof -
  assume inv: "invariant s"
  then have d: "distinct (items s)" by (simp add: invariant_iff)
  show ?thesis
  proof (cases "items s \<noteq> [] \<and> index_ok index (items s)")
    case False
    then show ?thesis using inv by (auto simp: pop_def list_getitem_def)
  next
    case True
    then have n: "norm_index index (items s) < length (items s)"
      using norm_index_ok [of index "items s"] by simp
    show ?thesis
      using True distinct_del_nth [OF d n]
      by (simp add: pop_def list_getitem_def list_delitem_def invariant_rebuilt)
  qed
qed

lemma invariant_discard: "invariant s \<Longrightarrow> invariant (snd (discard s v))"
proof (cases "v \<in> set (items s)")
  case False
  assume inv: "invariant s"
  then have "\<not> contains s v" using False contains_iff [of s v] by simp
  then show ?thesis using inv by (simp add: discard_absent)
next
  case True
  assume inv: "invariant s"
  then have d: "distinct (items s)" by (simp add: invariant_iff)
  from True obtain j where j: "j < length (items s)" "items s ! j = v"
    by (auto simp: in_set_conv_nth)
  show ?thesis
    using discard_at [OF inv j(1)] j(2) distinct_del_nth [OF d j(1)]
    by (simp add: invariant_rebuilt)
qed

lemma invariant_remove: "invariant s \<Longrightarrow> invariant (snd (remove s v))"
  by (simp add: remove_def invariant_discard)

lemma invariant_setitem: "invariant s \<Longrightarrow> invariant (snd (setitem s index v))"
proof -
  assume inv: "invariant s"
  then have d: "distinct (items s)" by (simp add: invariant_iff)
  show ?thesis
  proof (cases "index_ok index (items s)")
    case False
    then show ?thesis using inv by (simp add: setitem_out_of_range)
  next
    case ok: True
    show ?thesis
    proof (cases "v \<in> set (items s)")
      case False
      then show ?thesis
        using setitem_new [OF inv ok False] distinct_update_new [OF d False]
        by (simp add: invariant_rebuilt)
    next
      case True
      then obtain j where j: "j < length (items s)" "items s ! j = v"
        by (auto simp: in_set_conv_nth)
      show ?thesis
      proof (cases "j = norm_index index (items s)")
        case True
        then show ?thesis using setitem_same [OF inv ok] j inv by simp
      next
        case False
        show ?thesis
          using setitem_move [OF inv ok j False] distinct_move [OF d j(1)] j(2)
          by (simp add: invariant_rebuilt)
      qed
    qed
  qed
qed

lemma invariant_clear: "invariant (clear s)"
  by (simp add: clear_def invariant_def)

lemma invariant_intersection_update: "invariant s \<Longrightarrow> invariant (intersection_update s other)"
  by (simp add: intersection_update_def invariant_update_items invariant_iff [of s])

lemma invariant_difference_update: "invariant s \<Longrightarrow> invariant (difference_update s sets)"
  by (simp add: difference_update_def invariant_update_items invariant_iff [of s])

lemma symmetric_difference_update_items:
  "invariant s \<Longrightarrow>
   items (symmetric_difference_update s other) =
     filter (\<lambda>x. x \<notin> set other) (items s) @ filter (\<lambda>x. x \<notin> set (items s)) other"
  by (simp add: symmetric_difference_update_def Let_def update_items_eq contains_iff)

lemma invariant_symmetric_difference_update:
  assumes "invariant s" and "distinct other"
  shows "invariant (symmetric_difference_update s other)"
proof -
  have "distinct (filter (\<lambda>x. x \<notin> set other) (items s) @ filter (\<lambda>x. x \<notin> set (items s)) other)"
    using assms by (auto simp: invariant_iff)
  then show ?thesis
    using assms(1)
    by (simp add: symmetric_difference_update_def Let_def invariant_update_items contains_iff)
qed

text \<open>
  Every state reached through the constructor and the mutating operations satisfies the
  core invariant, as long as \<open>symmetric_difference_update\<close> is given sources without
  repeated elements.
\<close>

lemma reachable_invariant: "reachable s \<Longrightarrow> invariant s"
proof (induction rule: reachable.induct)
  case (init xs)
  show ?case by (rule invariant_OrderedSet)
next
  case (clear s)
  show ?case by (rule invariant_clear)
qed (simp_all add: invariant_add invariant_append invariant_update invariant_setitem
    invariant_delitem invariant_pop invariant_remove invariant_discard
    invariant_intersection_update invariant_difference_update
    invariant_symmetric_difference_update)

text \<open>
  Claim C1. The claim says that every state reachable through the public operations
  satisfies the core invariant. \<open>symmetric_difference_update\<close> breaks it when its source
  repeats an element that the set does not hold: from the set \<open>["a"]\<close> and the source
  \<open>["b","b"]\<close> the code builds the sequence \<open>["a","b","b"]\<close>, which holds \<open>"b"\<close> twice, with
  the position index \<open>{"a": 0, "b": 2}\<close>: the element at position 1 is recorded at 2, and
  the index has two keys for three elements.
\<close>

theorem symmetric_difference_update_repeated_source:
  "items (symmetric_difference_update (OrderedSet [''a'']) [''b'', ''b'']) = [''a'', ''b'', ''b''] \<and>
   map_idx (symmetric_difference_update (OrderedSet [''a'']) [''b'', ''b'']) ''b'' = Some 2 \<and>
   map_idx (symmetric_difference_update (OrderedSet [''a'']) [''b'', ''b''])
     (items (symmetric_difference_update (OrderedSet [''a'']) [''b'', ''b'']) ! 1) \<noteq> Some 1 \<and>
   \<not> distinct (items (symmetric_difference_update (OrderedSet [''a'']) [''b'', ''b''])) \<and>
   card (dom (map_idx (symmetric_difference_update (OrderedSet [''a'']) [''b'', ''b'']))) = 2 \<and>
   length (items (symmetric_difference_update (OrderedSet [''a'']) [''b'', ''b''])) = 3"
proof -
  have ev: "OrderedSet [''a''] = \<lparr>items = [''a''], map_idx = [''a'' \<mapsto> 0]\<rparr>"
    by (simp add: OrderedSet_def update_def add_def empty_os_def)
  have r: "symmetric_difference_update (OrderedSet [''a'']) [''b'', ''b''] =
      \<lparr>items = [''a'', ''b'', ''b''], map_idx = [''a'' \<mapsto> 0, ''b'' \<mapsto> 2]\<rparr>"
    unfolding ev
    by (simp add: symmetric_difference_update_def Let_def update_items_def contains_def
        rebuild_map_def store_def)
  show ?thesis unfolding r by simp
qed

lemma symmetric_difference_update_breaks_invariant:
  "invariant (OrderedSet [''a'']) \<and>
   \<not> invariant (symmetric_difference_update (OrderedSet [''a'']) [''b'', ''b''])"
proof -
  have "items (symmetric_difference_update (OrderedSet [''a'']) [''b'', ''b'']) = [''a'', ''b'', ''b'']"
    using symmetric_difference_update_items [OF invariant_OrderedSet, of "[''a'']" "[''b'', ''b'']"]
    by (simp add: items_OrderedSet)
  then have "\<not> distinct (items (symmetric_difference_update (OrderedSet [''a'']) [''b'', ''b'']))"
    by simp
  then show ?thesis using invariant_OrderedSet [of "[''a'']"] by (simp add: invariant_iff)
qed

section \<open>In-place and pure set operations\<close>

lemma copy_eq: "copy s = \<lparr>items = unseen [] (items s), map_idx = rebuild_map (unseen [] (items s))\<rparr>"
  by (simp add: copy_def OrderedSet_eq)

lemma copy_invariant: "invariant s \<Longrightarrow> copy s = s"
  using OrderedSet_distinct [of "items s"] by (simp add: copy_def invariant_iff)

lemma in_all_single_fun: "in_all [other] = (\<lambda>item. item \<in> set other)"
  by (rule ext) (simp add: in_all_single)

lemma symmetric_difference_eq:
  "symmetric_difference s other =
     OrderedSet (filter (\<lambda>x. x \<notin> set other) (unseen [] (items s)) @
                 filter (\<lambda>x. x \<notin> set (items s)) (unseen [] other))"
  by (simp add: symmetric_difference_def Let_def union_os_def items_difference_single
      items_OrderedSet unseen_idem)

lemma symmetric_difference_parts_distinct:
  "distinct (filter (\<lambda>x. x \<notin> set other) (unseen [] (items s)) @
             filter (\<lambda>x. x \<notin> set (items s)) (unseen [] other))"
  by (auto simp: distinct_unseen set_unseen)

lemma intersection_consistent:
  "intersection_update (copy a) b = intersection a [b] \<and> and_op a b = intersection a [b]"
  by (simp add: intersection_update_def update_items_eq copy_eq intersection_def in_all_single
      in_all_single_fun OrderedSet_eq unseen_filter_nil and_op_def)

lemma difference_consistent:
  "difference_update (copy a) [b] = difference a [b]"
  by (simp add: difference_update_def update_items_eq copy_eq difference_def in_any_single
      OrderedSet_eq unseen_filter_nil)

lemma union_consistent:
  "update (copy a) [Iterable b] = (Inr (fst (add_each (copy a) 0 b)), union_os a [b])"
  using update_from_returns [of "[Iterable b]" "copy a" 0]
  by (simp add: update_def union_os_def copy_def OrderedSet_add_all add_all_append)

lemma symmetric_difference_consistent:
  assumes "distinct b"
  shows "symmetric_difference_update (copy a) b = symmetric_difference a b"
proof (rule invariant_eqI)
  have ic: "invariant (copy a)" by (simp add: copy_def invariant_OrderedSet)
  show "invariant (symmetric_difference_update (copy a) b)"
    using ic assms by (rule invariant_symmetric_difference_update)
  show "invariant (symmetric_difference a b)"
    by (simp add: symmetric_difference_eq invariant_OrderedSet)
  have "items (symmetric_difference_update (copy a) b) =
      filter (\<lambda>x. x \<notin> set b) (unseen [] (items a)) @ filter (\<lambda>x. x \<notin> set (items a)) b"
    using symmetric_difference_update_items [OF ic, of b]
    by (simp add: copy_eq set_unseen)
  then show "items (symmetric_difference_update (copy a) b) = items (symmetric_difference a b)"
    using assms symmetric_difference_parts_distinct [of b a]
    by (simp add: symmetric_difference_eq items_OrderedSet unseen_distinct)
qed

text \<open>
  Claim C3. The claim says that the in-place operation on a copy and the pure operation
  give equal sets, for every source. That holds for intersection (and \<open>&\<close>), difference and
  union, and for the symmetric difference when the source has no repeated element (lemmas
  above). With the source \<open>["b","b"]\<close> and the set \<open>["a"]\<close>,
  \<open>symmetric_difference_update\<close> on the copy gives \<open>["a","b","b"]\<close> while
  \<open>symmetric_difference\<close> gives \<open>["a","b"]\<close>, and \<open>__eq__\<close> tells them apart.
\<close>

theorem symmetric_difference_in_place_differs:
  "items (symmetric_difference_update (copy (OrderedSet [''a''])) [''b'', ''b'']) =
     [''a'', ''b'', ''b''] \<and>
   items (symmetric_difference (OrderedSet [''a'']) [''b'', ''b'']) = [''a'', ''b''] \<and>
   \<not> eq_os (symmetric_difference_update (copy (OrderedSet [''a''])) [''b'', ''b''])
            (symmetric_difference (OrderedSet [''a'']) [''b'', ''b''])"
proof -
  have ev: "OrderedSet [''a''] = \<lparr>items = [''a''], map_idx = [''a'' \<mapsto> 0]\<rparr>"
    by (simp add: OrderedSet_def update_def add_def empty_os_def)
  have c: "copy (OrderedSet [''a'']) = OrderedSet [''a'']"
    by (simp add: copy_def items_OrderedSet)
  have 1: "items (symmetric_difference_update (copy (OrderedSet [''a''])) [''b'', ''b'']) =
      [''a'', ''b'', ''b'']"
    unfolding c unfolding ev
    by (simp add: symmetric_difference_update_def Let_def update_items_def contains_def)
  have 2: "items (symmetric_difference (OrderedSet [''a'']) [''b'', ''b'']) = [''a'', ''b'']"
    by (simp add: symmetric_difference_def Let_def union_os_def difference_def in_any_def
        items_OrderedSet)
  show ?thesis using 1 2 by (simp add: eq_os_def)
qed

end
